theory Spec2Isabelle
  imports Complex_Main "HOL-Library.Char_ord" "HOL-Library.List_Lexorder"
begin

section \<open>Dairy expense tracker: the business logic of \<^verbatim>\<open>src/src/App.jsx\<close>\<close>

subsection \<open>Numbers\<close>

text \<open>
  The source computes with ECMAScript numbers, which are IEEE 754 doubles. A number is
  modelled by its special value or by the rational it denotes: \<open>Fin q\<close> is the finite
  number \<open>q\<close>. The sign of zero is not modelled.
\<close>

datatype jsnum = NaN | NegInf | Fin rat | PosInf

fun isNaN :: "jsnum \<Rightarrow> bool" where
  "isNaN NaN = True"
| "isNaN _ = False"

text \<open>\<open>x <= 0\<close>: every comparison with \<open>NaN\<close> is false.\<close>

fun le_zero :: "jsnum \<Rightarrow> bool" where
  "le_zero NaN = False"
| "le_zero NegInf = True"
| "le_zero (Fin q) = (q \<le> 0)"
| "le_zero PosInf = False"

fun isFinite :: "jsnum \<Rightarrow> bool" where
  "isFinite (Fin q) = True"
| "isFinite _ = False"

text \<open>
  The positive numbers, \<open>+Infinity\<close> among them: the numbers that are neither \<open>NaN\<close> nor
  \<open><= 0\<close>.
\<close>

fun isPositive :: "jsnum \<Rightarrow> bool" where
  "isPositive NaN = False"
| "isPositive NegInf = False"
| "isPositive (Fin q) = (0 < q)"
| "isPositive PosInf = True"

fun signed_inf :: "bool \<Rightarrow> jsnum" where
  "signed_inf True = PosInf"
| "signed_inf False = NegInf"

text \<open>
  Rounding to the nearest double, ties to even. \<open>pow2 k\<close> is \<open>2\<close> to the power \<open>k\<close>;
  \<open>ilog2 a\<close> is the exponent of the binade of a positive \<open>a\<close>, the \<open>k\<close> with
  \<open>2^k <= a < 2^(k+1)\<close>, found from the number of binary digits of an integer (for
  \<open>a < 1\<close> it is minus the least \<open>k\<close> with \<open>1/a <= 2^k\<close>, which is the number of digits of
  \<open>ceil(1/a) - 1\<close>). A double has 53 significant bits, so in the binade
  of exponent \<open>e\<close> the doubles are the multiples of \<open>2^(e-52)\<close>; below \<open>2^(-1022)\<close> the
  spacing stays \<open>2^(-1074)\<close> (subnormal numbers); a result of \<open>2^1024\<close> or more is an
  infinity.
\<close>

definition pow2 :: "int \<Rightarrow> rat" where
  "pow2 k = (if 0 \<le> k then 2 ^ nat k else 1 / 2 ^ nat (- k))"

function bitLength :: "int \<Rightarrow> nat" where
  "bitLength n = (if 0 < n then Suc (bitLength (n div 2)) else 0)"
  by pat_completeness auto
termination
  by (relation "measure nat") auto

definition ilog2 :: "rat \<Rightarrow> int" where
  "ilog2 a =
     (if 1 \<le> a then int (bitLength \<lfloor>a\<rfloor>) - 1
      else - int (bitLength (\<lceil>1 / a\<rceil> - 1)))"

definition roundHalfEven :: "rat \<Rightarrow> int" where
  "roundHalfEven x =
     (let f = \<lfloor>x\<rfloor>; r = x - of_int f
      in if r < 1 / 2 then f else if 1 / 2 < r then f + 1 else if even f then f else f + 1)"

definition toDouble :: "rat \<Rightarrow> jsnum" where
  "toDouble q =
     (if q = 0 then Fin 0
      else let a = \<bar>q\<bar>;
               e = max (ilog2 a) (- 1022);
               ulp = pow2 (e - 52);
               n = roundHalfEven (a / ulp)
           in if 1023 < e \<or> (e = 1023 \<and> 2 ^ 53 \<le> n) then signed_inf (0 < q)
              else Fin (if 0 < q then of_int n * ulp else - (of_int n * ulp)))"

text \<open>
  \<open>x + y\<close> and \<open>x * y\<close> on numbers: \<open>NaN\<close> is absorbing, opposite infinities add to
  \<open>NaN\<close>, zero times an infinity is \<open>NaN\<close>, and the sum or product of two finite numbers
  is the exact result rounded to a double. Adding zero changes nothing, as it is for
  doubles; it is written out because \<open>Fin q\<close> is not restricted to the doubles.
\<close>

instantiation jsnum :: "{zero, plus, times}"
begin

definition zero_jsnum :: jsnum where
  "zero_jsnum = Fin 0"

fun plus_jsnum :: "jsnum \<Rightarrow> jsnum \<Rightarrow> jsnum" where
  "plus_jsnum NaN _ = NaN"
| "plus_jsnum _ NaN = NaN"
| "plus_jsnum PosInf NegInf = NaN"
| "plus_jsnum NegInf PosInf = NaN"
| "plus_jsnum PosInf _ = PosInf"
| "plus_jsnum _ PosInf = PosInf"
| "plus_jsnum NegInf _ = NegInf"
| "plus_jsnum _ NegInf = NegInf"
| "plus_jsnum (Fin a) (Fin b) =
     (if a = 0 then Fin b else if b = 0 then Fin a else toDouble (a + b))"

fun times_jsnum :: "jsnum \<Rightarrow> jsnum \<Rightarrow> jsnum" where
  "times_jsnum NaN _ = NaN"
| "times_jsnum _ NaN = NaN"
| "times_jsnum (Fin a) (Fin b) = toDouble (a * b)"
| "times_jsnum (Fin a) PosInf = (if a = 0 then NaN else signed_inf (0 < a))"
| "times_jsnum (Fin a) NegInf = (if a = 0 then NaN else signed_inf (a < 0))"
| "times_jsnum PosInf (Fin b) = (if b = 0 then NaN else signed_inf (0 < b))"
| "times_jsnum NegInf (Fin b) = (if b = 0 then NaN else signed_inf (b < 0))"
| "times_jsnum PosInf PosInf = PosInf"
| "times_jsnum PosInf NegInf = NegInf"
| "times_jsnum NegInf PosInf = NegInf"
| "times_jsnum NegInf NegInf = PosInf"

instance ..

end

subsection \<open>Data\<close>

text \<open>
  \<open>MILK_TYPES\<close> has the two ids \<open>"cow"\<close> and \<open>"buffalo"\<close>. A date key is the string
  \<open>YYYY-MM-DD\<close> made by \<open>toKey\<close> or by a date input; the source compares date keys with
  \<open><=\<close> on strings, which is the lexicographic order of the code units, and sorts them
  with \<open>localeCompare\<close>, which on date keys is the same order.
\<close>

datatype milk = Cow | Buffalo

type_synonym dateKey = string

record rate =
  effectiveFrom :: dateKey
  cow :: jsnum
  buffalo :: jsnum

record entry =
  date :: dateKey
  type :: milk
  kg :: jsnum

subsection \<open>Rate lookup\<close>

text \<open>
  \<open>sortedRates = [...rates].sort((a, b) => a.effectiveFrom.localeCompare(b.effectiveFrom))\<close>:
  a stable sort of a copy. \<open>latestRate = sortedRates[sortedRates.length - 1]\<close> is
  \<open>undefined\<close> on the empty list.
\<close>

definition sortedRates :: "rate list \<Rightarrow> rate list" where
  "sortedRates rates = sort_key effectiveFrom rates"

definition latestRate :: "rate list \<Rightarrow> rate option" where
  "latestRate rates =
     (case sortedRates rates of [] \<Rightarrow> None | r # rs \<Rightarrow> Some (last (r # rs)))"

text \<open>The loop of \<open>rateForDate\<close>: \<open>found\<close> is overwritten until the first later record.\<close>

fun scanRates :: "rate option \<Rightarrow> dateKey \<Rightarrow> rate list \<Rightarrow> rate option" where
  "scanRates found dateKey [] = found"
| "scanRates found dateKey (r # rs) =
     (if effectiveFrom r \<le> dateKey then scanRates (Some r) dateKey rs else found)"

definition rateForDate :: "rate list \<Rightarrow> dateKey \<Rightarrow> rate option" where
  "rateForDate rates dateKey = scanRates None dateKey (sortedRates rates)"

subsection \<open>Application state and the two inserts\<close>

text \<open>
  The component state that the business logic reads and writes: \<open>entries\<close> and \<open>rates\<close>.
  The dialog flags are presentation state and are left out. Both handlers either return
  early, having called no setter, or append the cleaned record with
  \<open>setEntries((cur) => [...cur, clean])\<close> (\<open>setRates\<close> likewise). The outcome names the
  branch taken: the spec's \<open>ValidationError\<close> for the validation returns (silent in
  \<open>addEntry\<close>, with an alert in \<open>addRate\<close>) and \<open>RateMissingError\<close> for the alert asking
  for rates first.

  A draft holds the text of the number inputs; \<open>clean\<close> converts it with \<open>Number\<close>. The
  model takes the draft with its numbers already converted: \<open>kg draft\<close> stands for
  \<open>Number(draft.kg)\<close>, which can be any number, \<open>NaN\<close> and the infinities included
  (\<open>Number\<close> of a decimal text is \<open>toDouble\<close> of its value).
  \<open>!clean.date\<close> holds of the empty string.
\<close>

record app =
  entries :: "entry list"
  rates :: "rate list"

datatype outcome = Saved | ValidationError | RateMissingError

definition initialApp :: app where
  "initialApp = \<lparr>entries = [], rates = []\<rparr>"

definition addEntry :: "app \<Rightarrow> entry \<Rightarrow> outcome \<times> app" where
  "addEntry s draft =
     (let clean = \<lparr>date = date draft, type = type draft, kg = kg draft\<rparr> in
      if date clean = [] \<or> isNaN (kg clean) \<or> le_zero (kg clean) then (ValidationError, s)
      else (case rateForDate (rates s) (date clean) of
              None \<Rightarrow> (RateMissingError, s)
            | Some rf \<Rightarrow> (Saved, s\<lparr>entries := entries s @ [clean]\<rparr>)))"

definition addRate :: "app \<Rightarrow> rate \<Rightarrow> outcome \<times> app" where
  "addRate s draft =
     (let clean = \<lparr>effectiveFrom = effectiveFrom draft, cow = cow draft, buffalo = buffalo draft\<rparr> in
      if effectiveFrom clean = [] \<or> isNaN (cow clean) \<or> isNaN (buffalo clean)
           \<or> le_zero (cow clean) \<or> le_zero (buffalo clean)
      then (ValidationError, s)
      else (case latestRate (rates s) of
              None \<Rightarrow> (Saved, s\<lparr>rates := rates s @ [clean]\<rparr>)
            | Some l \<Rightarrow>
                if effectiveFrom clean \<le> effectiveFrom l then (ValidationError, s)
                else (Saved, s\<lparr>rates := rates s @ [clean]\<rparr>)))"

text \<open>The states the application reaches from the empty collections by its two inserts.\<close>

inductive reachable :: "app \<Rightarrow> bool" where
  reachable_initial: "reachable initialApp"
| reachable_addEntry: "reachable s \<Longrightarrow> reachable (snd (addEntry s draft))"
| reachable_addRate: "reachable s \<Longrightarrow> reachable (snd (addRate s draft))"

subsection \<open>Aggregation\<close>

text \<open>
  \<open>summary\<close> is the object \<open>{ cowKg, bufKg, cost }\<close> of a day in \<open>dayMap\<close>, and the three
  accumulators of \<open>totals\<close>; \<open>totals\<close> returns them with \<open>kg: cowKg + bufKg\<close> added.
\<close>

record summary =
  cowKg :: jsnum
  bufKg :: jsnum
  cost :: jsnum

record totalsResult = summary +
  kgTotal :: jsnum

definition perKgOf :: "milk \<Rightarrow> rate \<Rightarrow> jsnum" where
  "perKgOf t r = (if t = Cow then cow r else buffalo r)"

definition addKg :: "entry \<Rightarrow> summary \<Rightarrow> summary" where
  "addKg e acc =
     (if type e = Cow then acc\<lparr>cowKg := cowKg acc + kg e\<rparr> else acc\<lparr>bufKg := bufKg acc + kg e\<rparr>)"

text \<open>The loop of \<open>totals\<close>; \<open>if (!r) continue\<close> comes before the kg tallies.\<close>

fun totalsLoop :: "rate list \<Rightarrow> summary \<Rightarrow> entry list \<Rightarrow> summary" where
  "totalsLoop rs acc [] = acc"
| "totalsLoop rs acc (e # es) =
     (case rateForDate rs (date e) of
        None \<Rightarrow> totalsLoop rs acc es
      | Some r \<Rightarrow>
          (let acc1 = addKg e acc;
               perKg = perKgOf (type e) r
           in totalsLoop rs (acc1\<lparr>cost := cost acc1 + perKg * kg e\<rparr>) es))"

definition totals :: "entry list \<Rightarrow> rate list \<Rightarrow> totalsResult" where
  "totals es rs =
     (let acc = totalsLoop rs \<lparr>cowKg = 0, bufKg = 0, cost = 0\<rparr> es
      in \<lparr>cowKg = cowKg acc, bufKg = bufKg acc, cost = cost acc, kgTotal = cowKg acc + bufKg acc\<rparr>)"







text \<open>
  Names for what the two loops add per entry. An entry is \<open>covered\<close> when a rate is in
  effect on its date. \<open>lineCost\<close> is the amount \<open>perKg * e.kg\<close> that \<open>dayMap\<close> adds to the
  cost of the entry's day, with \<open>perKg\<close> 0 for an entry that is not covered; \<open>kgIf t\<close> is
  the weight an entry adds to the tally of type \<open>t\<close>; \<open>bucket m d\<close> is
  \<open>map.get(d) || { cowKg: 0, bufKg: 0, cost: 0 }\<close>. \<open>sumInOrder\<close> adds a list of numbers
  the way both loops do: from 0, one \<open>+=\<close> after the other, in the order of the list.
\<close>

definition covered :: "rate list \<Rightarrow> entry \<Rightarrow> bool" where
  "covered rs e = (rateForDate rs (date e) \<noteq> None)"

definition lineCost :: "rate list \<Rightarrow> entry \<Rightarrow> jsnum" where
  "lineCost rs e =
     (case rateForDate rs (date e) of
        None \<Rightarrow> 0 * kg e
      | Some r \<Rightarrow> perKgOf (type e) r * kg e)"

definition kgIf :: "milk \<Rightarrow> entry \<Rightarrow> jsnum" where
  "kgIf t e = (if type e = t then kg e else 0)"


definition sumInOrder :: "jsnum list \<Rightarrow> jsnum" where
  "sumInOrder xs = foldl (+) 0 xs"

subsection \<open>The calendar grid\<close>

text \<open>
  \<open>daysMatrix\<close> works on \<open>Date\<close> objects at local midnight. Such a date is modelled by
  its day number, the count of days since 1970-01-01: \<open>getDay\<close> is the week day of the day
  number (0 is Sunday; day 0 was a Thursday), \<open>cursor.setDate(cursor.getDate() + k)\<close>
  moves the cursor by \<open>k\<close> days. The calendar itself is not code of the repository:
  \<open>daysMatrix\<close> takes \<open>start\<close>, the day number of \<open>startOfMonth(activeDate)\<close>, and
  \<open>endDate\<close>, the value of \<open>end.getDate()\<close>, which is the length of the month.
  \<open>Math.ceil(totalDays / 7)\<close> is the ceiling of the exact quotient: rounding the quotient
  to a double does not carry it across an integer.
\<close>

type_synonym day = int

definition getDay :: "day \<Rightarrow> nat" where
  "getDay t = nat ((t + 4) mod 7)"

function rowLoop :: "nat \<Rightarrow> day list \<Rightarrow> day \<Rightarrow> day list \<times> day" where
  "rowLoop c row cursor =
     (if c < 7 then rowLoop (c + 1) (row @ [cursor]) (cursor + 1) else (row, cursor))"
  by pat_completeness auto
termination
  by (relation "measure (\<lambda>(c, row, cursor). 7 - c)") auto

function matrixLoop :: "nat \<Rightarrow> nat \<Rightarrow> day list list \<Rightarrow> day \<Rightarrow> day list list" where
  "matrixLoop rows r matrix cursor =
     (if r < rows
      then (case rowLoop 0 [] cursor of (row, cursor') \<Rightarrow>
              matrixLoop rows (r + 1) (matrix @ [row]) cursor')
      else matrix)"
  by pat_completeness auto
termination
  by (relation "measure (\<lambda>(rows, r, matrix, cursor). rows - r)") auto

definition daysMatrix :: "day \<Rightarrow> nat \<Rightarrow> day list list" where
  "daysMatrix start endDate =
     (let startIdx = (getDay start + 6) mod 7;
          totalDays = startIdx + endDate;
          rows = nat \<lceil>(of_nat totalDays :: rat) / 7\<rceil>;
          cursor = start - int startIdx
      in matrixLoop rows 0 [] cursor)"

text \<open>
  Names for the parts of the grid: a row of seven days from a cursor, the index
  \<open>startIdx\<close> of the first of the month in its week (Monday is 0), and the number of
  rows as a quotient of naturals.
\<close>

definition week :: "day \<Rightarrow> day list" where
  "week cursor = map (\<lambda>i. cursor + int i) [0..<7]"

definition startIdxOf :: "day \<Rightarrow> nat" where
  "startIdxOf start = (getDay start + 6) mod 7"

definition rowsOf :: "day \<Rightarrow> nat \<Rightarrow> nat" where
  "rowsOf start endDate = (startIdxOf start + endDate + 6) div 7"

subsection \<open>Persistence\<close>

text \<open>
  \<open>loadLS\<close> and \<open>saveLS\<close> go through \<open>localStorage\<close> and \<open>JSON\<close>. The values they move are
  arrays of flat objects of strings and numbers. A stored string is modelled by what
  \<open>JSON.parse\<close> makes of it: \<open>JsonText v\<close> is a text that parses to \<open>v\<close>, \<open>OtherText t\<close> is
  the string \<open>t\<close>, which \<open>JSON.parse\<close> rejects with a \<open>SyntaxError\<close> (the empty string is one
  of these). \<open>JSON.stringify\<close> writes a number that is not finite as \<open>null\<close>.
\<close>

datatype jsval = JNull | JNum jsnum | JStr string | JArr "jsval list"
  | JObj "(string \<times> jsval) list"

datatype stored = JsonText jsval | OtherText string

fun written :: "jsval \<Rightarrow> jsval" where
  "written JNull = JNull"
| "written (JNum x) = (if isFinite x then JNum x else JNull)"
| "written (JStr t) = JStr t"
| "written (JArr vs) = JArr (map written vs)"
| "written (JObj props) = JObj (map (map_prod id written) props)"

definition JSON_stringify :: "jsval \<Rightarrow> stored" where
  "JSON_stringify v = JsonText (written v)"

fun JSON_parse :: "stored \<Rightarrow> jsval option" where
  "JSON_parse (JsonText v) = Some v"
| "JSON_parse (OtherText t) = None"

type_synonym localStorage = "string \<rightharpoonup> stored"

text \<open>
  \<open>raw ? JSON.parse(raw) : fallback\<close> inside \<open>try\<close>: the fallback is returned for a missing
  key (\<open>getItem\<close> gives \<open>null\<close>), for the empty string, and when \<open>JSON.parse\<close> throws.
\<close>

definition loadLS :: "localStorage \<Rightarrow> string \<Rightarrow> jsval \<Rightarrow> jsval" where
  "loadLS ls key fallback =
     (case ls key of
        None \<Rightarrow> fallback
      | Some raw \<Rightarrow>
          if raw = OtherText [] then fallback
          else (case JSON_parse raw of None \<Rightarrow> fallback | Some v \<Rightarrow> v))"

definition saveLS :: "localStorage \<Rightarrow> string \<Rightarrow> jsval \<Rightarrow> localStorage" where
  "saveLS ls key v = ls(key \<mapsto> JSON_stringify v)"

text \<open>The two collections as values: the objects \<open>clean\<close> of \<open>addEntry\<close> and \<open>addRate\<close>.\<close>

fun milkId :: "milk \<Rightarrow> string" where
  "milkId Cow = ''cow''"
| "milkId Buffalo = ''buffalo''"

definition entryVal :: "entry \<Rightarrow> jsval" where
  "entryVal e = JObj [(''date'', JStr (date e)), (''type'', JStr (milkId (type e))),
     (''kg'', JNum (kg e))]"

definition rateVal :: "rate \<Rightarrow> jsval" where
  "rateVal r = JObj [(''effectiveFrom'', JStr (effectiveFrom r)), (''cow'', JNum (cow r)),
     (''buffalo'', JNum (buffalo r))]"

definition entriesVal :: "entry list \<Rightarrow> jsval" where
  "entriesVal es = JArr (map entryVal es)"

definition ratesVal :: "rate list \<Rightarrow> jsval" where
  "ratesVal rs = JArr (map rateVal rs)"

text \<open>\<open>LS_KEYS\<close>\<close>

definition LS_entries :: string where
  "LS_entries = ''dairy.entries.v2''"

definition LS_rates :: string where
  "LS_rates = ''dairy.rates.v2''"

subsection \<open>The records of the spec's scenarios\<close>

definition rateJan :: rate where
  "rateJan = \<lparr>effectiveFrom = ''2024-01-01'', cow = Fin 50, buffalo = Fin 70\<rparr>"

definition rateFeb :: rate where
  "rateFeb = \<lparr>effectiveFrom = ''2024-02-01'', cow = Fin 55, buffalo = Fin 75\<rparr>"

definition entryCow2 :: entry where
  "entryCow2 = \<lparr>date = ''2024-01-01'', type = Cow, kg = Fin 2\<rparr>"

definition entryEarly :: entry where
  "entryEarly = \<lparr>date = ''2023-12-31'', type = Cow, kg = Fin 1\<rparr>"

definition appJan :: app where
  "appJan = \<lparr>entries = [entryCow2], rates = [rateJan]\<rparr>"

text \<open>The first rate, an entry on its first day, then the second rate.\<close>

definition appTwo :: app where
  "appTwo =
     snd (addRate (snd (addEntry (snd (addRate initialApp rateJan)) entryCow2)) rateFeb)"

definition entryInf :: entry where
  "entryInf = \<lparr>date = ''2024-01-01'', type = Cow, kg = PosInf\<rparr>"



section \<open>Properties\<close>

subsection \<open>Rounding\<close>

text \<open>
  \<open>ilog2\<close> finds the binade, and a finite result of \<open>toDouble\<close> is within half a unit
  in the last place of the exact value.
\<close>

lemma roundHalfEven_near: "\<bar>of_int (roundHalfEven x) - x\<bar> \<le> 1 / 2"
proof -
  have "of_int \<lfloor>x\<rfloor> \<le> x" "x < of_int \<lfloor>x\<rfloor> + 1" by linarith+
  then show ?thesis by (auto simp: roundHalfEven_def Let_def)
qed

lemma pow2_pos: "0 < pow2 k"
  by (simp add: pow2_def)

declare bitLength.simps [simp del]

lemma bitLength_pos: "0 < n \<Longrightarrow> 0 < bitLength n"
  by (subst bitLength.simps) simp

lemma bitLength_bounds:
  "0 < n \<Longrightarrow> 2 ^ (bitLength n - 1) \<le> n \<and> n < 2 ^ bitLength n"
proof (induction n rule: bitLength.induct)
  case (1 n)
  show ?case
  proof (cases "n = 1")
    case True
    then have "bitLength n = 1"
      by (subst bitLength.simps, subst bitLength.simps) simp
    with True show ?thesis by simp
  next
    case False
    with "1.prems" have half: "0 < n div 2" by simp
    from "1.IH" [OF "1.prems" half]
    have IH: "2 ^ (bitLength (n div 2) - 1) \<le> n div 2" "n div 2 < 2 ^ bitLength (n div 2)"
      by simp_all
    from bitLength_pos [OF half] obtain j where j: "bitLength (n div 2) = Suc j"
      by (cases "bitLength (n div 2)") auto
    from "1.prems" have len: "bitLength n = Suc (Suc j)"
      by (subst bitLength.simps) (simp add: j)
    from IH have "2 ^ j \<le> n div 2" "n div 2 + 1 \<le> 2 * 2 ^ j" by (simp_all add: j)
    then have "2 * 2 ^ j \<le> n" "n < 2 * (2 * 2 ^ j)" by linarith+
    then show ?thesis by (simp add: len)
  qed
qed

lemma ilog2_bounds:
  assumes "0 < a"
  shows "pow2 (ilog2 a) \<le> a \<and> a < pow2 (ilog2 a + 1)"
proof (cases "1 \<le> a")
  case True
  define n where "n = \<lfloor>a\<rfloor>"
  from True have n: "0 < n" "of_int n \<le> a" "a < of_int n + 1"
    unfolding n_def by linarith+
  from bitLength_pos [OF n(1)] obtain j where L: "bitLength n = Suc j"
    by (cases "bitLength n") auto
  from bitLength_bounds [OF n(1)] have b: "2 ^ j \<le> n" "n + 1 \<le> 2 ^ Suc j"
    by (simp_all add: L)
  from True have il: "ilog2 a = int j" by (simp add: ilog2_def n_def [symmetric] L)
  from b(1) have "(of_int (2 ^ j) :: rat) \<le> of_int n" by (simp only: of_int_le_iff)
  then have "(2::rat) ^ j \<le> of_int n" by simp
  with n(2) have "(2::rat) ^ j \<le> a" by linarith
  then have lo: "pow2 (int j) \<le> a" by (simp add: pow2_def)
  from b(2) have "(of_int (n + 1) :: rat) \<le> of_int (2 ^ Suc j)" by (simp only: of_int_le_iff)
  then have "(of_int n :: rat) + 1 \<le> 2 ^ Suc j" by simp
  with n(3) have "a < 2 ^ Suc j" by linarith
  then have "a < pow2 (int j + 1)" by (simp add: pow2_def nat_add_distrib)
  with lo il show ?thesis by simp
next
  case False
  define b where "b = 1 / a"
  from False assms have b1: "1 < b" unfolding b_def by simp
  define n where "n = \<lceil>b\<rceil> - 1"
  from b1 have "2 \<le> \<lceil>b\<rceil>" by linarith
  then have n: "0 < n" "of_int n < b" "b \<le> of_int n + 1"
    unfolding n_def by linarith+
  from bitLength_pos [OF n(1)] obtain j where L: "bitLength n = Suc j"
    by (cases "bitLength n") auto
  from bitLength_bounds [OF n(1)] have bb: "2 ^ j \<le> n" "n + 1 \<le> 2 ^ Suc j"
    by (simp_all add: L)
  from False have il: "ilog2 a = - int (Suc j)"
    by (simp add: ilog2_def b_def [symmetric] n_def [symmetric] L)
  from bb(2) have "(of_int (n + 1) :: rat) \<le> of_int (2 ^ Suc j)" by (simp only: of_int_le_iff)
  then have "(of_int n :: rat) + 1 \<le> 2 ^ Suc j" by simp
  with n(3) have "b \<le> 2 ^ Suc j" by linarith
  with assms have lo: "1 / 2 ^ Suc j \<le> a" unfolding b_def by (simp add: field_simps)
  from bb(1) have "(of_int (2 ^ j) :: rat) \<le> of_int n" by (simp only: of_int_le_iff)
  then have "(2::rat) ^ j \<le> of_int n" by simp
  with n(2) have "2 ^ j < b" by linarith
  with assms have hi: "a < 1 / 2 ^ j" unfolding b_def by (simp add: field_simps)
  have p1: "pow2 (- int (Suc j)) = 1 / 2 ^ Suc j"
    by (simp add: pow2_def nat_add_distrib)
  have p2: "pow2 (- int (Suc j) + 1) = 1 / 2 ^ j"
    by (cases j) (simp_all add: pow2_def nat_add_distrib)
  from lo hi show ?thesis by (simp only: il p1 p2 simp_thms)
qed

lemma toDouble_zero: "toDouble 0 = Fin 0"
  by (simp add: toDouble_def)

text \<open>A finite result is within half a unit in the last place of the exact value.\<close>

lemma toDouble_near:
  assumes "toDouble q = Fin r"
  shows "\<bar>r - q\<bar> \<le> pow2 (max (ilog2 \<bar>q\<bar>) (- 1022) - 52) / 2"
proof (cases "q = 0")
  case True
  with assms show ?thesis by (simp add: toDouble_def less_imp_le [OF pow2_pos])
next
  case False
  define ulp where "ulp = pow2 (max (ilog2 \<bar>q\<bar>) (- 1022) - 52)"
  define n where "n = roundHalfEven (\<bar>q\<bar> / ulp)"
  have ulp: "0 < ulp" unfolding ulp_def by (rule pow2_pos)
  from assms False have r: "r = (if 0 < q then of_int n * ulp else - (of_int n * ulp))"
    by (auto simp: toDouble_def Let_def ulp_def n_def split: if_splits)
  have "of_int n * ulp - \<bar>q\<bar> = (of_int n - \<bar>q\<bar> / ulp) * ulp"
    using ulp by (simp add: field_simps)
  then have "\<bar>of_int n * ulp - \<bar>q\<bar>\<bar> = \<bar>of_int n - \<bar>q\<bar> / ulp\<bar> * ulp"
    using ulp by (simp add: abs_mult)
  also have "\<dots> \<le> 1 / 2 * ulp"
    unfolding n_def using ulp roundHalfEven_near [of "\<bar>q\<bar> / ulp"]
    by (intro mult_right_mono) simp_all
  finally have near: "\<bar>of_int n * ulp - \<bar>q\<bar>\<bar> \<le> ulp / 2" by simp
  show ?thesis
  proof (cases "0 < q")
    case True
    with near r show ?thesis unfolding ulp_def [symmetric] by simp
  next
    case neg: False
    with False have "q < 0" by simp
    then have "\<bar>r - q\<bar> = \<bar>of_int n * ulp - \<bar>q\<bar>\<bar>"
      using r by (simp add: abs_minus_commute)
    with near show ?thesis unfolding ulp_def [symmetric] by simp
  qed
qed

text \<open>Two roundings: a tie goes to the even neighbour, and one tenth is not a double.\<close>

lemma toDouble_tie: "toDouble 9007199254740993 = Fin 9007199254740992"
  by code_simp

lemma toDouble_tenth: "toDouble (1 / 10) = Fin (3602879701896397 / 36028797018963968)"
  by code_simp

subsection \<open>Rate lookup\<close>

lemma sortedRates_sorted: "sorted (map effectiveFrom (sortedRates rs))"
  by (simp add: sortedRates_def)

lemma set_sortedRates: "set (sortedRates rs) = set rs"
  by (simp add: sortedRates_def)

lemma scanRates_None:
  "sorted (map effectiveFrom rs) \<Longrightarrow>
   scanRates found d rs = None \<longleftrightarrow> found = None \<and> (\<forall>r\<in>set rs. \<not> effectiveFrom r \<le> d)"
proof (induction rs arbitrary: found)
  case Nil
  then show ?case by simp
next
  case (Cons r rs)
  show ?case
  proof (cases "effectiveFrom r \<le> d")
    case True
    with Cons show ?thesis by simp
  next
    case False
    from Cons.prems have "\<forall>r'\<in>set rs. effectiveFrom r \<le> effectiveFrom r'" by simp
    with False have "\<forall>r'\<in>set rs. \<not> effectiveFrom r' \<le> d" by auto
    with False show ?thesis by simp
  qed
qed

lemma scanRates_Some:
  "sorted (map effectiveFrom rs) \<Longrightarrow> scanRates found d rs = Some x \<Longrightarrow>
   (found = Some x \<and> (\<forall>r\<in>set rs. \<not> effectiveFrom r \<le> d)) \<or>
   (x \<in> set rs \<and> effectiveFrom x \<le> d \<and>
      (\<forall>r'\<in>set rs. effectiveFrom r' \<le> d \<longrightarrow> effectiveFrom r' \<le> effectiveFrom x))"
proof (induction rs arbitrary: found)
  case Nil
  then show ?case by simp
next
  case (Cons r rs)
  from Cons.prems(1) have sorted_tl: "sorted (map effectiveFrom rs)"
    and lower: "\<forall>r'\<in>set rs. effectiveFrom r \<le> effectiveFrom r'" by simp_all
  show ?case
  proof (cases "effectiveFrom r \<le> d")
    case True
    with Cons.prems(2) have "scanRates (Some r) d rs = Some x" by simp
    from Cons.IH [OF sorted_tl this] True lower show ?thesis by auto
  next
    case False
    with lower have "\<forall>r'\<in>set rs. \<not> effectiveFrom r' \<le> d" by auto
    with False Cons.prems(2) show ?thesis by simp
  qed
qed

lemma rateForDate_None_iff:
  "rateForDate rs D = None \<longleftrightarrow> (\<forall>r\<in>set rs. \<not> effectiveFrom r \<le> D)"
  using scanRates_None [OF sortedRates_sorted, of None D rs]
  by (simp add: rateForDate_def set_sortedRates)

lemma rateForDate_Some:
  assumes "rateForDate rs D = Some x"
  shows "x \<in> set rs \<and> effectiveFrom x \<le> D \<and>
      (\<forall>r\<in>set rs. effectiveFrom r \<le> D \<longrightarrow> effectiveFrom r \<le> effectiveFrom x)"
proof -
  from assms have "scanRates None D (sortedRates rs) = Some x"
    by (simp add: rateForDate_def)
  from scanRates_Some [OF sortedRates_sorted this] show ?thesis
    by (simp add: set_sortedRates)
qed

text \<open>
  C2. For every date \<open>D\<close> and every timeline, \<open>rateForDate\<close> returns none exactly when no
  record has \<open>effectiveFrom <= D\<close>, and otherwise returns a record of the timeline whose
  \<open>effectiveFrom\<close> is \<open><= D\<close> and is the greatest such.
\<close>

theorem rateForDate_greatest:
  "(rateForDate rs D = None \<longleftrightarrow> (\<forall>r\<in>set rs. \<not> effectiveFrom r \<le> D)) \<and>
   (\<forall>x. rateForDate rs D = Some x \<longrightarrow>
      x \<in> set rs \<and> effectiveFrom x \<le> D \<and>
      (\<forall>r\<in>set rs. effectiveFrom r \<le> D \<longrightarrow> effectiveFrom r \<le> effectiveFrom x))"
  using rateForDate_None_iff rateForDate_Some by blast

theorem rateForDate_greatest_witness:
  "rateForDate [rateFeb, rateJan] ''2024-01-31'' = Some rateJan \<and>
   rateJan \<in> set [rateFeb, rateJan] \<and> effectiveFrom rateJan \<le> ''2024-01-31'' \<and>
   \<not> effectiveFrom rateFeb \<le> ''2024-01-31'' \<and>
   rateForDate [rateFeb, rateJan] ''2023-12-31'' = None"
proof -
  have found: "rateForDate [rateFeb, rateJan] ''2024-01-31'' = Some rateJan"
    by (simp add: rateForDate_def sortedRates_def rateJan_def rateFeb_def)
  have later: "\<not> effectiveFrom rateFeb \<le> ''2024-01-31''"
    by (simp add: rateFeb_def)
  have "\<forall>r\<in>set [rateFeb, rateJan]. \<not> effectiveFrom r \<le> ''2023-12-31''"
    by (simp add: rateJan_def rateFeb_def)
  with rateForDate_greatest [of "[rateFeb, rateJan]" "''2023-12-31''"]
  have "rateForDate [rateFeb, rateJan] ''2023-12-31'' = None" by blast
  with found later rateForDate_greatest [of "[rateFeb, rateJan]" "''2024-01-31''"]
  show ?thesis by blast
qed

subsection \<open>The two inserts\<close>

lemma not_positive_iff: "\<not> isPositive x \<longleftrightarrow> isNaN x \<or> le_zero x"
  by (cases x) auto

lemma addEntry_cases:
  "addEntry s e =
     (if date e = [] \<or> \<not> isPositive (kg e) then (ValidationError, s)
      else if rateForDate (rates s) (date e) = None then (RateMissingError, s)
      else (Saved, s\<lparr>entries := entries s @ [e]\<rparr>))"
  by (auto simp: addEntry_def not_positive_iff split: option.splits)

lemma addRate_cases:
  "addRate s r =
     (if effectiveFrom r = [] \<or> \<not> isPositive (cow r) \<or> \<not> isPositive (buffalo r)
      then (ValidationError, s)
      else if (\<exists>l. latestRate (rates s) = Some l \<and> effectiveFrom r \<le> effectiveFrom l)
      then (ValidationError, s)
      else (Saved, s\<lparr>rates := rates s @ [r]\<rparr>))"
  by (auto simp: addRate_def not_positive_iff Let_def split: option.splits)

lemma latestRate_single: "latestRate [r] = Some r"
  by (simp add: latestRate_def sortedRates_def)

text \<open>
  C9. An insert that fails, of an entry or of a rate and for whatever reason, returns the
  state it was given: neither the ledger nor the timeline changes.
\<close>

theorem failed_insert_keeps_state:
  "(fst (addEntry s e) \<noteq> Saved \<longrightarrow> snd (addEntry s e) = s) \<and>
   (fst (addRate s r) \<noteq> Saved \<longrightarrow> snd (addRate s r) = s)"
  by (simp add: addEntry_cases addRate_cases)

theorem failed_insert_keeps_state_witness:
  "fst (addEntry appJan entryEarly) = RateMissingError \<and>
   snd (addEntry appJan entryEarly) = appJan \<and>
   fst (addRate appJan rateJan) = ValidationError \<and> snd (addRate appJan rateJan) = appJan"
proof -
  have 1: "fst (addEntry appJan entryEarly) = RateMissingError"
    by (simp add: addEntry_cases appJan_def entryEarly_def rateJan_def rateForDate_def
        sortedRates_def)
  have 2: "fst (addRate appJan rateJan) = ValidationError"
    by (simp add: addRate_cases appJan_def rateJan_def latestRate_single)
  from 1 2 failed_insert_keeps_state [of appJan entryEarly rateJan] show ?thesis by simp
qed

text \<open>
  C6, as the spec states it, fails at \<open>+Infinity\<close>: the validation tests \<open>isNaN\<close> and
  \<open><= 0\<close> only, so an entry of infinite weight and a rate record with an infinite rate are
  both saved.
\<close>

theorem insert_accepts_infinity:
  "\<not> isFinite (kg entryInf) \<and>
   addEntry \<lparr>entries = [], rates = [rateJan]\<rparr> entryInf
      = (Saved, \<lparr>entries = [entryInf], rates = [rateJan]\<rparr>) \<and>
   \<not> isFinite (cow (rateJan\<lparr>cow := PosInf\<rparr>)) \<and>
   addRate initialApp (rateJan\<lparr>cow := PosInf\<rparr>)
      = (Saved, \<lparr>entries = [], rates = [rateJan\<lparr>cow := PosInf\<rparr>]\<rparr>)"
  by (simp add: addEntry_cases addRate_cases entryInf_def rateJan_def rateForDate_def
      sortedRates_def initialApp_def latestRate_def)

text \<open>
  C6, amended. A rate insert fails with \<open>ValidationError\<close> whenever the effective date is
  absent or either rate is not a positive number (\<open>NaN\<close>, zero, negative or \<open>-Infinity\<close>);
  an entry insert fails with \<open>ValidationError\<close> exactly when the date is absent or the
  weight is not a positive number. \<open>+Infinity\<close> counts as positive.
\<close>

theorem insert_rejects_not_positive:
  "(effectiveFrom r = [] \<or> \<not> isPositive (cow r) \<or> \<not> isPositive (buffalo r)
      \<longrightarrow> addRate s r = (ValidationError, s)) \<and>
   (fst (addEntry s e) = ValidationError \<longleftrightarrow> date e = [] \<or> \<not> isPositive (kg e))"
  by (simp add: addEntry_cases addRate_cases)

theorem insert_rejects_not_positive_witness:
  "\<not> isPositive (cow (rateJan\<lparr>cow := NaN\<rparr>)) \<and>
   addRate appJan (rateJan\<lparr>cow := NaN\<rparr>) = (ValidationError, appJan) \<and>
   \<not> isPositive (kg (entryCow2\<lparr>kg := Fin 0\<rparr>)) \<and>
   fst (addEntry appJan (entryCow2\<lparr>kg := Fin 0\<rparr>)) = ValidationError"
  using insert_rejects_not_positive
    [of "rateJan\<lparr>cow := NaN\<rparr>" appJan "entryCow2\<lparr>kg := Fin 0\<rparr>"]
  by (simp add: rateJan_def entryCow2_def)

subsection \<open>Rate coverage at insertion\<close>







subsection \<open>The timeline invariant\<close>

lemma sortedRates_increasing: "sorted_wrt (<) (map effectiveFrom rs) \<Longrightarrow> sortedRates rs = rs"
  by (simp add: sortedRates_def sort_key_id_if_sorted strict_sorted_imp_sorted)

lemma latestRate_increasing:
  "sorted_wrt (<) (map effectiveFrom rs) \<Longrightarrow>
   latestRate rs = (if rs = [] then None else Some (last rs))"
  by (simp add: latestRate_def sortedRates_increasing split: list.splits)

lemma last_greatest:
  assumes "sorted_wrt (<) (map effectiveFrom rs)" and "rs \<noteq> []"
  shows "effectiveFrom (last rs) = Max (effectiveFrom ` set rs)"
proof -
  from assms(2) obtain ys y where rs: "rs = ys @ [y]" by (cases rs rule: rev_cases) auto
  with assms(1) have "\<forall>x\<in>set ys. effectiveFrom x < effectiveFrom y"
    by (auto simp: sorted_wrt_append)
  then have "\<forall>k\<in>effectiveFrom ` set rs. k \<le> effectiveFrom y"
    using rs by auto
  moreover have "effectiveFrom y \<in> effectiveFrom ` set rs" using rs by simp
  ultimately have "Max (effectiveFrom ` set rs) = effectiveFrom y"
    by (intro Max_eqI) auto
  with rs show ?thesis by simp
qed

lemma addRate_increasing:
  assumes "sorted_wrt (<) (map effectiveFrom (rates s))"
  shows "sorted_wrt (<) (map effectiveFrom (rates (snd (addRate s r))))"
proof (cases "fst (addRate s r) = Saved")
  case False
  with assms show ?thesis by (auto simp: addRate_cases split: if_splits)
next
  case True
  then have new: "rates (snd (addRate s r)) = rates s @ [r]"
    and later: "\<not> (\<exists>l. latestRate (rates s) = Some l \<and> effectiveFrom r \<le> effectiveFrom l)"
    by (auto simp: addRate_cases split: if_splits)
  have "\<forall>x\<in>set (rates s). effectiveFrom x < effectiveFrom r"
  proof (cases "rates s = []")
    case True
    then show ?thesis by simp
  next
    case False
    with later assms have "effectiveFrom (last (rates s)) < effectiveFrom r"
      by (simp add: latestRate_increasing)
    moreover have "\<forall>x\<in>set (rates s). effectiveFrom x \<le> effectiveFrom (last (rates s))"
      using last_greatest [OF assms False] by simp
    ultimately show ?thesis by auto
  qed
  with assms new show ?thesis by (simp add: sorted_wrt_append)
qed

lemma addEntry_rates: "rates (snd (addEntry s e)) = rates s"
  by (simp add: addEntry_cases)

lemma reachable_increasing: "reachable s \<Longrightarrow> sorted_wrt (<) (map effectiveFrom (rates s))"
proof (induction rule: reachable.induct)
  case reachable_initial
  show ?case by (simp add: initialApp_def)
next
  case (reachable_addEntry s draft)
  then show ?case by (simp add: addEntry_rates)
next
  case (reachable_addRate s draft)
  then show ?case by (simp add: addRate_increasing)
qed

text \<open>
  C3. In every state reached from the empty collections by inserts, the effective dates
  of the timeline are strictly increasing in insertion order; \<open>latestRate\<close> is the record
  inserted last and its effective date is the maximum of all those stored (every accepted
  insert is stored, none is removed); an insert whose effective date is \<open><=\<close> that of the
  latest record is rejected with \<open>ValidationError\<close>, and a valid record is accepted when
  the timeline is empty or its effective date is later than the latest.
\<close>

theorem timeline_strictly_increasing:
  assumes "reachable s"
  shows "sorted_wrt (<) (map effectiveFrom (rates s)) \<and>
         latestRate (rates s) = (if rates s = [] then None else Some (last (rates s))) \<and>
         (rates s \<noteq> [] \<longrightarrow>
            effectiveFrom (last (rates s)) = Max (effectiveFrom ` set (rates s))) \<and>
         (\<forall>r. rates s \<noteq> [] \<and> effectiveFrom r \<le> effectiveFrom (last (rates s))
            \<longrightarrow> addRate s r = (ValidationError, s)) \<and>
         (\<forall>r. effectiveFrom r \<noteq> [] \<and> isPositive (cow r) \<and> isPositive (buffalo r) \<and>
              (rates s = [] \<or> effectiveFrom (last (rates s)) < effectiveFrom r)
            \<longrightarrow> addRate s r = (Saved, s\<lparr>rates := rates s @ [r]\<rparr>))"
proof -
  note inc = reachable_increasing [OF assms]
  note latest = latestRate_increasing [OF inc]
  show ?thesis
  proof (intro conjI allI impI)
    show "sorted_wrt (<) (map effectiveFrom (rates s))" by (rule inc)
    show "latestRate (rates s) = (if rates s = [] then None else Some (last (rates s)))"
      by (rule latest)
    show "effectiveFrom (last (rates s)) = Max (effectiveFrom ` set (rates s))"
      if "rates s \<noteq> []" using last_greatest [OF inc that] .
    show "addRate s r = (ValidationError, s)"
      if "rates s \<noteq> [] \<and> effectiveFrom r \<le> effectiveFrom (last (rates s))" for r
      using that latest by (simp add: addRate_cases)
    show "addRate s r = (Saved, s\<lparr>rates := rates s @ [r]\<rparr>)"
      if "effectiveFrom r \<noteq> [] \<and> isPositive (cow r) \<and> isPositive (buffalo r) \<and>
              (rates s = [] \<or> effectiveFrom (last (rates s)) < effectiveFrom r)" for r
      using that latest by (auto simp: addRate_cases)
  qed
qed

lemma appTwo_eq: "appTwo = \<lparr>entries = [entryCow2], rates = [rateJan, rateFeb]\<rparr>"
  by (simp add: appTwo_def addRate_cases addEntry_cases initialApp_def latestRate_def
      sortedRates_def rateJan_def rateFeb_def entryCow2_def rateForDate_def)

theorem timeline_strictly_increasing_witness:
  "reachable appTwo \<and> rates appTwo = [rateJan, rateFeb] \<and>
   latestRate (rates appTwo) = Some rateFeb \<and>
   effectiveFrom rateFeb = Max (effectiveFrom ` set (rates appTwo)) \<and>
   effectiveFrom rateJan \<le> effectiveFrom rateFeb \<and>
   addRate appTwo rateJan = (ValidationError, appTwo) \<and>
   addRate appTwo rateFeb = (ValidationError, appTwo) \<and>
   addRate initialApp rateJan = (Saved, initialApp\<lparr>rates := [rateJan]\<rparr>)"
proof -
  have r: "reachable appTwo"
    unfolding appTwo_def
    by (intro reachable_addRate reachable_addEntry reachable_initial)
  have rs: "rates appTwo = [rateJan, rateFeb]" by (simp add: appTwo_eq)
  have le: "effectiveFrom rateJan \<le> effectiveFrom rateFeb" by (simp add: rateJan_def rateFeb_def)
  have ok: "effectiveFrom rateJan \<noteq> [] \<and> isPositive (cow rateJan) \<and> isPositive (buffalo rateJan)"
    by (simp add: rateJan_def)
  have e: "rates initialApp = []" by (simp add: initialApp_def)
  from timeline_strictly_increasing [OF r] rs le
  have "latestRate (rates appTwo) = Some rateFeb"
    "effectiveFrom rateFeb = Max (effectiveFrom ` set (rates appTwo))"
    "addRate appTwo rateJan = (ValidationError, appTwo)"
    "addRate appTwo rateFeb = (ValidationError, appTwo)"
    by simp_all
  moreover from timeline_strictly_increasing [OF reachable_initial] ok e
  have "addRate initialApp rateJan = (Saved, initialApp\<lparr>rates := [rateJan]\<rparr>)"
    by simp
  ultimately show ?thesis using r rs le by simp
qed

subsection \<open>Aggregation\<close>

text \<open>
  Addition of doubles is not associative, so the sums below are stated the way the loops
  form them, as accumulations in ledger order. Zero is neutral on both sides, and zero
  times a finite number is zero.
\<close>

lemma plus_zero_jsnum: "x + (0::jsnum) = x"
  by (cases x) (simp_all add: zero_jsnum_def)


lemma cowKg_addKg: "cowKg (addKg e acc) = cowKg acc + kgIf Cow e"
  by (simp add: addKg_def kgIf_def plus_zero_jsnum)

lemma bufKg_addKg: "bufKg (addKg e acc) = bufKg acc + kgIf Buffalo e"
  by (cases "type e") (simp_all add: addKg_def kgIf_def plus_zero_jsnum)

lemma cost_addKg: "cost (addKg e acc) = cost acc"
  by (simp add: addKg_def)

lemma totalsLoop_cowKg:
  "cowKg (totalsLoop rs acc es)
     = foldl (+) (cowKg acc) (map (kgIf Cow) (filter (covered rs) es))"
  by (induction es arbitrary: acc)
    (auto simp: covered_def cowKg_addKg Let_def split: option.splits)

lemma totalsLoop_bufKg:
  "bufKg (totalsLoop rs acc es)
     = foldl (+) (bufKg acc) (map (kgIf Buffalo) (filter (covered rs) es))"
  by (induction es arbitrary: acc)
    (auto simp: covered_def bufKg_addKg Let_def split: option.splits)

lemma totalsLoop_cost:
  "cost (totalsLoop rs acc es)
     = foldl (+) (cost acc) (map (lineCost rs) (filter (covered rs) es))"
  by (induction es arbitrary: acc)
    (auto simp: covered_def lineCost_def cost_addKg Let_def split: option.splits)

lemma totalsLoop_skip:
  "totalsLoop rs acc es = totalsLoop rs acc (filter (covered rs) es)"
  by (induction es arbitrary: acc) (auto simp: covered_def Let_def split: option.splits)

text \<open>
  C1, as the spec states it, fails: \<open>if (!r) continue\<close> comes before the kg tallies, so
  the weight of an entry without a rate is in no tally of \<open>totals\<close>.
\<close>

theorem totals_drops_uncovered_weight:
  "rateForDate [rateJan] (date entryEarly) = None \<and> kg entryEarly = Fin 1 \<and>
   cowKg (totals [entryEarly] [rateJan]) = Fin 0 \<and>
   kgTotal (totals [entryEarly] [rateJan]) = Fin 0"
  by (simp add: totals_def rateForDate_def sortedRates_def entryEarly_def rateJan_def
      zero_jsnum_def)

text \<open>
  C1, amended. An entry whose date has no resolvable rate is skipped entirely by
  \<open>totals\<close>: the result is that of the covered entries alone; \<open>cowKg\<close> and \<open>bufKg\<close> are
  the sums of the weights of the covered entries of each type, \<open>kg\<close> is their sum, and
  \<open>cost\<close> is the sum of rate times weight over the covered entries, each sum accumulated
  in ledger order.
\<close>

theorem totals_of_covered:
  "totals es rs = totals (filter (covered rs) es) rs \<and>
   cowKg (totals es rs) = sumInOrder (map (kgIf Cow) (filter (covered rs) es)) \<and>
   bufKg (totals es rs) = sumInOrder (map (kgIf Buffalo) (filter (covered rs) es)) \<and>
   kgTotal (totals es rs) = cowKg (totals es rs) + bufKg (totals es rs) \<and>
   cost (totals es rs) = sumInOrder (map (lineCost rs) (filter (covered rs) es))"
proof -
  have "totals es rs = totals (filter (covered rs) es) rs"
    unfolding totals_def by (subst totalsLoop_skip) (rule refl)
  then show ?thesis
    by (simp add: totals_def Let_def sumInOrder_def totalsLoop_cowKg totalsLoop_bufKg
        totalsLoop_cost)
qed

subsection \<open>Totals against the days\<close>






















subsection \<open>The calendar grid\<close>

text \<open>The loops are unfolded by hand, one iteration at a time.\<close>

declare rowLoop.simps [simp del] matrixLoop.simps [simp del]

lemma upt_shift: "[0..<Suc k] = 0 # map Suc [0..<k]"
  by (simp add: upt_conv_Cons map_Suc_upt del: upt_Suc)

lemma rowLoop_eq:
  "c \<le> 7 \<Longrightarrow>
   rowLoop c row cursor = (row @ map (\<lambda>i. cursor + int i) [0..<7 - c], cursor + int (7 - c))"
proof (induction c row cursor rule: rowLoop.induct)
  case (1 c row cursor)
  show ?case
  proof (cases "c < 7")
    case True
    then have "7 - c = Suc (7 - (c + 1))" by simp
    then have split: "[0..<7 - c] = 0 # map Suc [0..<7 - (c + 1)]"
      by (simp only: upt_shift)
    from True have "rowLoop c row cursor = rowLoop (c + 1) (row @ [cursor]) (cursor + 1)"
      by (subst rowLoop.simps) simp
    also from True have "\<dots> = ((row @ [cursor]) @ map (\<lambda>i. cursor + 1 + int i) [0..<7 - (c + 1)],
        cursor + 1 + int (7 - (c + 1)))"
      by (intro "1.IH") simp_all
    also from True have "\<dots> = (row @ map (\<lambda>i. cursor + int i) [0..<7 - c], cursor + int (7 - c))"
      by (simp add: split comp_def del: upt_Suc)
    finally show ?thesis .
  next
    case False
    with "1.prems" have "c = 7" by simp
    then show ?thesis by (subst rowLoop.simps) simp
  qed
qed

lemma rowLoop_week: "rowLoop 0 [] cursor = (week cursor, cursor + 7)"
  using rowLoop_eq [of 0 "[]" cursor] by (simp add: week_def)

lemma matrixLoop_eq:
  "r \<le> rows \<Longrightarrow>
   matrixLoop rows r matrix cursor
     = matrix @ map (\<lambda>j. week (cursor + 7 * int j)) [0..<rows - r]"
proof (induction rows r matrix cursor rule: matrixLoop.induct)
  case (1 rows r matrix cursor)
  show ?case
  proof (cases "r < rows")
    case True
    then have "rows - r = Suc (rows - (r + 1))" by simp
    then have split: "[0..<rows - r] = 0 # map Suc [0..<rows - (r + 1)]"
      by (simp only: upt_shift)
    from True have "matrixLoop rows r matrix cursor
        = matrixLoop rows (r + 1) (matrix @ [week cursor]) (cursor + 7)"
      by (subst matrixLoop.simps) (simp add: rowLoop_week)
    also from True have "\<dots> = (matrix @ [week cursor])
        @ map (\<lambda>j. week (cursor + 7 + 7 * int j)) [0..<rows - (r + 1)]"
      by (intro "1.IH" [OF _ rowLoop_week [symmetric]]) simp_all
    also have "\<dots> = matrix @ map (\<lambda>j. week (cursor + 7 * int j)) [0..<rows - r]"
      by (simp add: split comp_def algebra_simps del: upt_Suc)
    finally show ?thesis .
  next
    case False
    with "1.prems" have "r = rows" by simp
    then show ?thesis by (subst matrixLoop.simps) simp
  qed
qed

lemma ceil_div7: "nat \<lceil>(of_nat n :: rat) / 7\<rceil> = (n + 6) div 7"
proof -
  have "\<lceil>(of_nat n :: rat) / 7\<rceil> = \<lceil>(of_int (int n) :: rat) / of_int 7\<rceil>" by simp
  also have "\<dots> = - ((- int n) div 7)" by (simp only: ceiling_divide_eq_div)
  also have "\<dots> = (int n + 6) div 7" by presburger
  finally show ?thesis by (simp add: nat_div_distrib)
qed


lemma daysMatrix_eq:
  "daysMatrix start endDate
     = map (\<lambda>j. week (start - int (startIdxOf start) + 7 * int j)) [0..<rowsOf start endDate]"
  by (simp add: daysMatrix_def Let_def ceil_div7 matrixLoop_eq startIdxOf_def rowsOf_def
)

lemma concat_weeks:
  "concat (map (\<lambda>j. week (first + 7 * int j)) [0..<n]) = map (\<lambda>i. first + int i) [0..<7 * n]"
proof (induction n)
  case 0
  show ?case by simp
next
  case (Suc n)
  have split: "[0..<7 * Suc n] = [0..<7 * n] @ map (\<lambda>i. i + 7 * n) [0..<7]"
    using upt_add_eq_append [of 0 "7 * n" 7] by (simp add: map_add_upt add.commute)
  have "concat (map (\<lambda>j. week (first + 7 * int j)) [0..<Suc n])
      = map (\<lambda>i. first + int i) [0..<7 * n] @ week (first + 7 * int n)"
    using Suc by simp
  also have "week (first + 7 * int n)
      = map (\<lambda>i. first + int i) (map (\<lambda>i. i + 7 * n) [0..<7])"
    by (simp add: week_def comp_def algebra_simps)
  finally show ?case by (simp only: split map_append)
qed

lemma int_startIdxOf: "int (startIdxOf start) = ((start + 4) mod 7 + 6) mod 7"
  by (simp add: startIdxOf_def getDay_def zmod_int)

lemma monday_before:
  "getDay (start - int (startIdxOf start)) = 1 \<and> start - int (startIdxOf start) \<le> start \<and>
   start < start - int (startIdxOf start) + 7"
proof -
  have "(start - ((start + 4) mod 7 + 6) mod 7 + 4) mod 7 = 1" by presburger
  then have "getDay (start - int (startIdxOf start)) = 1"
    by (simp add: getDay_def int_startIdxOf)
  moreover have "((start + 4) mod 7 + 6) mod 7 < 7" by simp
  then have "start < start - int (startIdxOf start) + 7" by (simp add: int_startIdxOf)
  ultimately show ?thesis by simp
qed

lemma rowsOf_least:
  "startIdxOf start + endDate \<le> 7 * rowsOf start endDate \<and>
   (\<forall>k. startIdxOf start + endDate \<le> 7 * k \<longrightarrow> rowsOf start endDate \<le> k)"
  unfolding rowsOf_def by (auto; presburger)

text \<open>
  C7. For every month, given by the day number \<open>start\<close> of its first day and its length
  \<open>endDate >= 1\<close>: every row of the grid has seven cells; the cells, read row by row, are
  consecutive days beginning at \<open>first\<close>, the Monday on or before the first of the month
  (at most six days before it); the grid reaches the last day of the month, and no grid
  of fewer rows from \<open>first\<close> would; no day occurs twice and every day of the month
  occurs. (The instance below is September 2024: day 19967 is Sunday the first, and the
  month has 30 days.)
\<close>

theorem daysMatrix_covers_month:
  fixes start :: day and endDate :: nat
  defines "m \<equiv> daysMatrix start endDate"
  defines "first \<equiv> start - int ((getDay start + 6) mod 7)"
  assumes "1 \<le> endDate"
  shows "(\<forall>row\<in>set m. length row = 7) \<and>
         concat m = map (\<lambda>i. first + int i) [0..<7 * length m] \<and>
         m \<noteq> [] \<and> hd (hd m) = first \<and>
         getDay first = 1 \<and> first \<le> start \<and> start < first + 7 \<and>
         start + int endDate \<le> first + 7 * int (length m) \<and>
         (\<forall>k. start + int endDate \<le> first + 7 * int k \<longrightarrow> length m \<le> k) \<and>
         distinct (concat m) \<and>
         (\<forall>d. start \<le> d \<and> d < start + int endDate \<longrightarrow> d \<in> set (concat m))"
proof -
  have first: "first = start - int (startIdxOf start)"
    by (simp add: first_def startIdxOf_def)
  have m: "m = map (\<lambda>j. week (first + 7 * int j)) [0..<rowsOf start endDate]"
    by (simp add: m_def daysMatrix_eq first)
  then have len: "length m = rowsOf start endDate" by simp
  have rows: "\<forall>row\<in>set m. length row = 7" by (auto simp: m week_def)
  have cells: "concat m = map (\<lambda>i. first + int i) [0..<7 * length m]"
    unfolding len unfolding m by (rule concat_weeks)
  from rowsOf_least [of start endDate] assms(3) have pos: "0 < rowsOf start endDate"
    by (cases "rowsOf start endDate") auto
  then have ne: "m \<noteq> []" using len by auto
  from pos have "[0..<rowsOf start endDate] = 0 # [Suc 0..<rowsOf start endDate]"
    by (simp add: upt_conv_Cons)
  then have hd: "hd (hd m) = first" by (simp add: m week_def upt_conv_Cons)
  note monday = monday_before [of start, folded first]
  have cover: "start + int endDate \<le> first + 7 * int (length m)"
    using rowsOf_least [of start endDate] by (simp add: len first)
  have least: "\<forall>k. start + int endDate \<le> first + 7 * int k \<longrightarrow> length m \<le> k"
  proof (intro allI impI)
    fix k assume "start + int endDate \<le> first + 7 * int k"
    then have "startIdxOf start + endDate \<le> 7 * k" by (simp add: first)
    with rowsOf_least [of start endDate] show "length m \<le> k" by (simp add: len)
  qed
  have dist: "distinct (concat m)"
    unfolding cells by (simp add: distinct_map inj_on_def)
  have mem: "\<forall>d. start \<le> d \<and> d < start + int endDate \<longrightarrow> d \<in> set (concat m)"
  proof (intro allI impI)
    fix d assume d: "start \<le> d \<and> d < start + int endDate"
    with monday cover have "first \<le> d" "d < first + 7 * int (length m)" by simp_all
    then have "nat (d - first) < 7 * length m" "d = first + int (nat (d - first))" by simp_all
    then show "d \<in> set (concat m)" unfolding cells by (metis atLeast_upt image_eqI lessThan_iff set_map atLeast0LessThan)
  qed
  from rows cells ne hd monday cover least dist mem show ?thesis by simp
qed


theorem daysMatrix_covers_month_witness:
  "(1::nat) \<le> 30 \<and> getDay 19967 = 0 \<and> length (daysMatrix 19967 30) = 6 \<and>
   hd (hd (daysMatrix 19967 30)) = 19961 \<and> getDay 19961 = 1 \<and>
   concat (daysMatrix 19967 30) = map (\<lambda>i. 19961 + int i) [0..<42] \<and>
   19996 \<in> set (concat (daysMatrix 19967 30)) \<and> distinct (concat (daysMatrix 19967 30))"
proof -
  have a: "(1::nat) \<le> 30" by simp
  have g: "getDay 19967 = 0" by (simp add: getDay_def)
  then have f: "19967 - int ((getDay 19967 + 6) mod 7) = 19961" by simp
  note t = daysMatrix_covers_month [OF a, of 19967, unfolded f]
  from t have "19967 + int 30 \<le> 19961 + 7 * int (length (daysMatrix 19967 30))"
    and "19967 + int 30 \<le> 19961 + 7 * int 6 \<longrightarrow> length (daysMatrix 19967 30) \<le> 6"
    by blast+
  then have len: "length (daysMatrix 19967 30) = 6" by simp
  from t have "hd (hd (daysMatrix 19967 30)) = 19961" "getDay 19961 = 1"
    "distinct (concat (daysMatrix 19967 30))"
    "concat (daysMatrix 19967 30)
       = map (\<lambda>i. 19961 + int i) [0..<7 * length (daysMatrix 19967 30)]"
    "(19967::int) \<le> 19996 \<and> (19996::int) < 19967 + int 30
       \<longrightarrow> 19996 \<in> set (concat (daysMatrix 19967 30))"
    by blast+
  with a g len show ?thesis by simp
qed

subsection \<open>Persistence\<close>

lemma written_entryVal: "isFinite (kg e) \<Longrightarrow> written (entryVal e) = entryVal e"
  by (simp add: entryVal_def)

lemma written_rateVal:
  "isFinite (cow r) \<Longrightarrow> isFinite (buffalo r) \<Longrightarrow> written (rateVal r) = rateVal r"
  by (simp add: rateVal_def)

lemma written_entriesVal:
  "\<forall>e\<in>set es. isFinite (kg e) \<Longrightarrow> written (entriesVal es) = entriesVal es"
  by (simp add: entriesVal_def written_entryVal)

lemma written_ratesVal:
  "\<forall>r\<in>set rs. isFinite (cow r) \<and> isFinite (buffalo r) \<Longrightarrow>
   written (ratesVal rs) = ratesVal rs"
  by (simp add: ratesVal_def written_rateVal)

lemma loadLS_saveLS: "loadLS (saveLS ls k v) k fb = written v"
  by (simp add: loadLS_def saveLS_def JSON_stringify_def)

lemma loadLS_saveLS_other: "k' \<noteq> k \<Longrightarrow> loadLS (saveLS ls k v) k' fb = loadLS ls k' fb"
  by (simp add: loadLS_def saveLS_def)

lemma inj_milkId: "milkId a = milkId b \<Longrightarrow> a = b"
  by (cases a; cases b) simp_all

lemma inj_entryVal: "entryVal a = entryVal b \<Longrightarrow> a = b"
  by (cases a; cases b) (auto simp: entryVal_def dest: inj_milkId)

lemma inj_rateVal: "rateVal a = rateVal b \<Longrightarrow> a = b"
  by (cases a; cases b) (auto simp: rateVal_def)

lemma inj_entriesVal: "entriesVal a = entriesVal b \<Longrightarrow> a = b"
  unfolding entriesVal_def using inj_entryVal by (auto simp: list_eq_iff_nth_eq)

lemma loadLS_fallback:
  "ls k = None \<or> (\<exists>t. ls k = Some (OtherText t)) \<Longrightarrow> loadLS ls k fb = fb"
  by (auto simp: loadLS_def)

text \<open>
  C8, as the spec states it, fails for a collection that holds a number that is not
  finite (\<open>addEntry\<close> saves an entry of weight \<open>+Infinity\<close>): \<open>JSON.stringify\<close> writes it
  as \<open>null\<close>, and \<open>null\<close> is what is loaded.
\<close>

theorem infinite_weight_not_restored:
  "loadLS (saveLS Map.empty LS_entries (entriesVal [entryInf])) LS_entries (JArr [])
     = JArr [JObj [(''date'', JStr ''2024-01-01''), (''type'', JStr ''cow''), (''kg'', JNull)]] \<and>
   loadLS (saveLS Map.empty LS_entries (entriesVal [entryInf])) LS_entries (JArr [])
     \<noteq> entriesVal [entryInf]"
  by (simp add: loadLS_saveLS entriesVal_def entryVal_def entryInf_def)

text \<open>
  C8, amended. For every ledger and every timeline whose numbers are finite, saving both
  under their keys and loading them again yields the same two collections, field names
  included.
\<close>

theorem save_load_roundtrip:
  assumes "\<forall>e\<in>set es. isFinite (kg e)"
    and "\<forall>r\<in>set rs. isFinite (cow r) \<and> isFinite (buffalo r)"
  shows "loadLS (saveLS (saveLS ls LS_entries (entriesVal es)) LS_rates (ratesVal rs))
           LS_entries (JArr []) = entriesVal es \<and>
         loadLS (saveLS (saveLS ls LS_entries (entriesVal es)) LS_rates (ratesVal rs))
           LS_rates (JArr []) = ratesVal rs"
  using assms
  by (simp add: loadLS_saveLS loadLS_saveLS_other written_entriesVal written_ratesVal
      LS_entries_def LS_rates_def)

theorem save_load_roundtrip_witness:
  "isFinite (kg entryCow2) \<and> isFinite (cow rateJan) \<and> isFinite (buffalo rateJan) \<and>
   loadLS (saveLS (saveLS Map.empty LS_entries (entriesVal [entryCow2])) LS_rates (ratesVal [rateJan]))
           LS_entries (JArr []) = entriesVal [entryCow2] \<and>
   loadLS (saveLS (saveLS Map.empty LS_entries (entriesVal [entryCow2])) LS_rates (ratesVal [rateJan]))
           LS_rates (JArr []) = ratesVal [rateJan]"
proof -
  have a: "\<forall>e\<in>set [entryCow2]. isFinite (kg e)" by (simp add: entryCow2_def)
  have b: "\<forall>r\<in>set [rateJan]. isFinite (cow r) \<and> isFinite (buffalo r)" by (simp add: rateJan_def)
  from save_load_roundtrip [OF a b, of Map.empty] a b show ?thesis by simp
qed

end
